theory Spec2Isabelle
  imports Complex_Main
begin

section \<open>The download-renaming watcher (main.py)\<close>

text \<open>
  A Python \<open>str\<close> is modelled as a \<open>string\<close>: one \<open>char\<close> stands for one code point, so
  \<open>length\<close> is Python's \<open>len\<close>, \<open>take n\<close> is the slice \<open>[:n]\<close> and \<open>drop i\<close> is \<open>[i:]\<close>.
  The two characters that cannot be written inside a literal are given by their code:
  \<open>CHR 0x22\<close> is the double quote and \<open>CHR 0x5C\<close> is the backslash.
\<close>

subsection \<open>Naming policy: \<open>sanitize_filename\<close>\<close>

text \<open>
  The character class of the pattern \<^verbatim>\<open>[<>:"/\\|?*]+\<close>: nine characters (the doubled
  backslash of the raw string is one escaped backslash).
\<close>

definition reserved :: "char \<Rightarrow> bool" where
  "reserved c =
     (c \<in> set [CHR ''<'', CHR ''>'', CHR '':'', CHR 0x22, CHR ''/'', CHR 0x5C,
               CHR ''|'', CHR ''?'', CHR ''*''])"

text \<open>
  \<^verbatim>\<open>re.sub(r'[<>:"/\\|?*]+', "_", url)\<close>: the scan goes from left to right. Where the
  pattern matches, the greedy \<open>+\<close> takes the whole run of class characters
  (\<open>dropWhile reserved\<close> is what is left after it), one \<open>_\<close> is written for the match, and
  the scan goes on behind it; a character where the pattern does not match is copied.
\<close>

function re_sub :: "string \<Rightarrow> string" where
  "re_sub [] = []"
| "re_sub (c # cs) =
     (if reserved c then CHR ''_'' # re_sub (dropWhile reserved cs)
      else c # re_sub cs)"
  by pat_completeness auto
termination
  by (relation "measure length") (auto simp: less_Suc_eq_le length_dropWhile_le)

text \<open>
  \<^verbatim>\<open>
  def sanitize_filename(url: str) -> str:
      if not url:
          return "unknown_source"
      filename = re.sub(r'[<>:"/\\|?*]+', "_", url)
      return filename[:200]
  \<close>
\<close>

definition sanitize_filename :: "string \<Rightarrow> string" where
  "sanitize_filename url =
     (if url = [] then ''unknown_source''
      else let filename = re_sub url in take 200 filename)"

text \<open>
  The substitution seen position by position, for the proofs: \<open>collapse prev s\<close> walks
  \<open>s\<close> knowing in \<open>prev\<close> whether the character before was in the class, and
  \<open>at_pos prev s i\<close> is what position \<open>i\<close> of \<open>s\<close> contributes to the result.
\<close>

fun collapse :: "bool \<Rightarrow> string \<Rightarrow> string" where
  "collapse prev [] = []"
| "collapse prev (c # cs) =
     (if reserved c then (if prev then [] else ''_'') @ collapse True cs
      else c # collapse False cs)"

definition at_pos :: "bool \<Rightarrow> string \<Rightarrow> nat \<Rightarrow> string" where
  "at_pos prev s i =
     (if reserved (s ! i)
      then (if (if i = 0 then prev else reserved (s ! (i - 1))) then [] else ''_'')
      else [s ! i])"

subsection \<open>Paths: the parts of \<open>pathlib\<close> the watcher uses\<close>

text \<open>
  \<open>pathlib\<close> is the standard library, not part of the repository; the watcher runs on
  macOS, so the paths are POSIX paths. A path object holds a root (\<open>/\<close>, \<open>//\<close> or
  nothing) and the list of its components; \<open>Path(s)\<close> parses a string into that form and
  \<open>str(p)\<close> prints it again.
\<close>

record path =
  path_root :: string
  path_tail :: "string list"

text \<open>
  \<open>s.split(sep)\<close> and \<open>sep.join(xs)\<close> of Python: splitting the empty string gives one
  empty piece, and two separators in a row give an empty piece between them. The \<open>[]\<close>
  case of the inner \<open>case\<close> is never reached (\<open>split\<close> returns at least one piece).
\<close>

fun split :: "char \<Rightarrow> string \<Rightarrow> string list" where
  "split sep [] = [[]]"
| "split sep (c # cs) =
     (if c = sep then [] # split sep cs
      else (case split sep cs of
              [] \<Rightarrow> [[c]]
            | w # ws \<Rightarrow> (c # w) # ws))"

fun join :: "string \<Rightarrow> string list \<Rightarrow> string" where
  "join sep [] = []"
| "join sep [x] = x"
| "join sep (x # y # ys) = x @ sep @ join sep (y # ys)"

text \<open>
  \<open>splitroot\<close> takes the leading slashes off: exactly two are kept as the root \<open>//\<close>,
  any other number is the root \<open>/\<close>. Parsing then drops the empty components and the
  components \<open>.\<close>; the source splits only when the rest contains a separator, which is
  the same list, since splitting a string without separator gives that string alone.
  A path with no root and no component prints as \<open>.\<close>.
\<close>

definition splitroot :: "string \<Rightarrow> string \<times> string" where
  "splitroot part =
     (if part \<noteq> [] \<and> hd part = CHR ''/''
      then (let stripped_part = dropWhile (\<lambda>c. c = CHR ''/'') part
            in if length part - length stripped_part = 2
               then (''//'', stripped_part)
               else (''/'', stripped_part))
      else ([], part))"

definition Path :: "string \<Rightarrow> path" where
  "Path s =
     (let (root, rel) = splitroot s
      in \<lparr>path_root = root,
          path_tail = filter (\<lambda>x. x \<noteq> [] \<and> x \<noteq> ''.'') (split (CHR ''/'') rel)\<rparr>)"

definition str :: "path \<Rightarrow> string" where
  "str p =
     (let s = path_root p @ join ''/'' (path_tail p)
      in if s = [] then ''.'' else s)"

text \<open>
  \<open>p.name\<close> is the last component, or the empty string when there is none.
  \<open>p.suffix\<close> looks for the last dot of the name with \<open>rfind\<close> (\<open>None\<close> stands for
  the \<open>-1\<close> of Python) and returns \<open>name[i:]\<close> when \<open>0 < i < len(name) - 1\<close>, the empty
  string otherwise: a leading dot and a trailing dot start no suffix.
\<close>

definition name :: "path \<Rightarrow> string" where
  "name p = (if path_tail p = [] then [] else last (path_tail p))"

fun rfind :: "char \<Rightarrow> string \<Rightarrow> nat option" where
  "rfind c [] = None"
| "rfind c (x # xs) =
     (case rfind c xs of
        Some i \<Rightarrow> Some (Suc i)
      | None \<Rightarrow> if x = c then Some 0 else None)"

definition suffix :: "path \<Rightarrow> string" where
  "suffix p =
     (case rfind (CHR ''.'') (name p) of
        None \<Rightarrow> []
      | Some i \<Rightarrow> if 0 < i \<and> i < length (name p) - 1 then drop i (name p) else [])"

text \<open>
  \<open>p / key\<close>: a key with a root replaces \<open>p\<close>; otherwise its components are appended.
\<close>

definition truediv :: "path \<Rightarrow> string \<Rightarrow> path" where
  "truediv p key =
     (let child = Path key
      in if path_root child \<noteq> [] then child
         else \<lparr>path_root = path_root p, path_tail = path_tail p @ path_tail child\<rparr>)"

subsection \<open>The world outside, and the resolver\<close>

text \<open>
  An exception is either an instance of \<open>Exception\<close> (every \<open>OSError\<close> is one), which
  \<open>except Exception\<close> catches, or another \<open>BaseException\<close> such as
  \<open>KeyboardInterrupt\<close>, which it does not. Both carry the text that \<open>str(e)\<close> gives.
\<close>

datatype pyexc = Exception string | BaseException string

text \<open>
  The lines the watcher prints, in the order of the source: one constructor for each
  \<open>print\<close> of \<open>wait_for_download_complete\<close> and \<open>process_event\<close>, holding the values
  that the f-string inserts (the pictograms in front of each line are left out).
\<close>

datatype line =
    Waiting string
  | Download_complete string
  | Timed_out string
  | Detected string
  | Renamed string
  | Could_not_rename string string

text \<open>
  The world outside the program: the value \<open>time.time()\<close> returns now and the paths
  that exist now. The program's own state is that world and what it has printed.
  What the program cannot decide is a parameter \<open>env\<close>: what the world looks like after
  \<open>time.sleep(secs)\<close> (other processes create and remove files meanwhile), what
  \<open>get_safari_url\<close> gets from the browser (or the exception of the \<open>subprocess\<close> call),
  what \<open>shutil.move\<close> does (the exception it raises, if any, and the world it leaves),
  and the directory \<open>DEST_DIR\<close>, which depends on the home directory.
\<close>

record world =
  clock :: real
  files :: "string set"

record state =
  os :: world
  stdout :: "line list"

record env =
  sleep :: "real \<Rightarrow> world \<Rightarrow> world"
  current_tab_url :: "world \<Rightarrow> pyexc + string"
  move :: "string \<Rightarrow> string \<Rightarrow> world \<Rightarrow> pyexc option \<times> world"
  DEST_DIR :: path

definition print :: "line \<Rightarrow> state \<Rightarrow> state" where
  "print l st = st\<lparr>stdout := stdout st @ [l]\<rparr>"

definition time_sleep :: "env \<Rightarrow> real \<Rightarrow> state \<Rightarrow> state" where
  "time_sleep e secs st = st\<lparr>os := sleep e secs (os st)\<rparr>"

definition exists :: "state \<Rightarrow> path \<Rightarrow> bool" where
  "exists st p = (str p \<in> files (os st))"

text \<open>
  \<^verbatim>\<open>
  def wait_for_download_complete(path: Path, timeout: int = 60) -> Path:
      if path.suffix != ".download":
          return path
      print(f"Waiting for {path.name} to finish downloading...")
      start_time = time.time()
      final = Path(str(path)[:-9])  # remove ".download"
      while time.time() - start_time < timeout:
          if not path.exists() and final.exists():
              print(f"Download complete: {final.name}")
              return final
          time.sleep(1)
      print(f"Timed out waiting for {path.name} to finish")
      return path
  \<close>
  \<open>poll\<close> is the \<open>while\<close> loop. Nothing in the loop itself bounds the number of rounds:
  it ends when the clock has advanced far enough, and the clock belongs to the world.
  So the loop is a partial function, \<open>None\<close> meaning that it never returns.
\<close>

partial_function (option) poll ::
  "env \<Rightarrow> path \<Rightarrow> path \<Rightarrow> real \<Rightarrow> int \<Rightarrow> state \<Rightarrow> (path \<times> state) option" where
  "poll e path final start_time timeout st =
     (if clock (os st) - start_time < real_of_int timeout then
        (if \<not> exists st path \<and> exists st final
         then Some (final, print (Download_complete (name final)) st)
         else poll e path final start_time timeout (time_sleep e 1 st))
      else Some (path, print (Timed_out (name path)) st))"

definition wait_for_download_complete ::
  "env \<Rightarrow> path \<Rightarrow> int \<Rightarrow> state \<Rightarrow> (path \<times> state) option" where
  "wait_for_download_complete e path timeout st =
     (if suffix path \<noteq> ''.download'' then Some (path, st)
      else
        let st1 = print (Waiting (name path)) st;
            start_time = clock (os st1);
            final = Path (take (length (str path) - 9) (str path))
        in poll e path final start_time timeout st1)"

text \<open>
  \<^verbatim>\<open>
  def process_event(self, path: Path):
      if not path.exists():
          return
      print(f"New or updated file detected: {path.name}")
      path = wait_for_download_complete(path)
      time.sleep(WAIT_TIME)
      safari_url = get_safari_url()
      safe_name = sanitize_filename(safari_url)
      new_path = DEST_DIR / f"{safe_name}{path.suffix}"
      try:
          shutil.move(str(path), str(new_path))
          print(f"Renamed & moved: {new_path.name}")
      except Exception as e:
          print(f"Could not rename {path.name}: {e}")
  \<close>
  The result is \<open>Inr\<close> of the state when the handler returns, \<open>Inl\<close> of the exception
  when one leaves it.
\<close>

definition WAIT_TIME :: real where
  "WAIT_TIME = 2"

definition get_safari_url :: "env \<Rightarrow> state \<Rightarrow> pyexc + string" where
  "get_safari_url e st = current_tab_url e (os st)"

definition shutil_move :: "env \<Rightarrow> string \<Rightarrow> string \<Rightarrow> state \<Rightarrow> pyexc option \<times> state" where
  "shutil_move e src dst st = (case move e src dst (os st) of (r, w) \<Rightarrow> (r, st\<lparr>os := w\<rparr>))"

definition process_event :: "env \<Rightarrow> path \<Rightarrow> state \<Rightarrow> (pyexc + state) option" where
  "process_event e path st =
     (if \<not> exists st path then Some (Inr st)
      else
        case wait_for_download_complete e path 60 (print (Detected (name path)) st) of
          None \<Rightarrow> None
        | Some (path', st1) \<Rightarrow>
            let st2 = time_sleep e WAIT_TIME st1
            in (case get_safari_url e st2 of
                  Inl exc \<Rightarrow> Some (Inl exc)
                | Inr safari_url \<Rightarrow>
                    let safe_name = sanitize_filename safari_url;
                        new_path = truediv (DEST_DIR e) (safe_name @ suffix path')
                    in (case shutil_move e (str path') (str new_path) st2 of
                          (None, st3) \<Rightarrow> Some (Inr (print (Renamed (name new_path)) st3))
                        | (Some (Exception msg), st3) \<Rightarrow>
                            Some (Inr (print (Could_not_rename (name path') msg) st3))
                        | (Some (BaseException msg), st3) \<Rightarrow>
                            Some (Inl (BaseException msg)))))"

subsection \<open>Concrete scenarios\<close>

text \<open>
  Two worlds to run the watcher in. In \<open>demo_env\<close> sleeping only advances the clock, no
  file ever changes and every move is refused. In \<open>finishing_env\<close> the download is
  complete once the clock reaches 2: from then on the marker file is gone and the final
  file is there.
\<close>

definition demo_env :: env where
  "demo_env =
     \<lparr>sleep = (\<lambda>secs w. w\<lparr>clock := clock w + secs\<rparr>),
      current_tab_url = (\<lambda>w. Inr ''https://example.com/invoice?id=42''),
      move = (\<lambda>src dst w. (Some (Exception ''Permission denied''), w)),
      DEST_DIR = Path ''/Users/u/Downloads/safari_renamed''\<rparr>"

definition finishing_env :: env where
  "finishing_env =
     \<lparr>sleep = (\<lambda>secs w.
        \<lparr>clock = clock w + secs,
         files = (if 2 \<le> clock w + secs then {''/Users/u/Downloads/report.pdf''}
                  else files w)\<rparr>),
      current_tab_url = (\<lambda>w. Inr ''https://example.com/invoice?id=42''),
      move = (\<lambda>src dst w. (None, w\<lparr>files := insert dst (files w - {src})\<rparr>)),
      DEST_DIR = Path ''/Users/u/Downloads/safari_renamed''\<rparr>"

definition marker_path :: path where
  "marker_path = Path ''/Users/u/Downloads/report.pdf.download''"

definition final_path :: path where
  "final_path = Path ''/Users/u/Downloads/report.pdf''"

definition photo_path :: path where
  "photo_path = Path ''/Users/u/Downloads/photo.jpg''"

definition state_with :: "string set \<Rightarrow> state" where
  "state_with fs = \<lparr>os = \<lparr>clock = 0, files = fs\<rparr>, stdout = []\<rparr>"

section \<open>Lemmas\<close>

subsection \<open>Facts about the substitution\<close>

lemma reserved_underscore: "\<not> reserved (CHR ''_'')"
  by (simp add: reserved_def)

lemma re_sub_clean: "c \<in> set (re_sub s) \<Longrightarrow> \<not> reserved c"
  by (induction s rule: re_sub.induct) (auto simp: reserved_underscore split: if_splits)

lemma re_sub_unreserved: "\<forall>c \<in> set s. \<not> reserved c \<Longrightarrow> re_sub s = s"
  by (induction s) auto

lemma re_sub_not_Nil: "s \<noteq> [] \<Longrightarrow> re_sub s \<noteq> []"
  by (cases s) auto

lemma length_re_sub_le: "length (re_sub s) \<le> length s"
proof (induction s rule: re_sub.induct)
  case 1
  show ?case by simp
next
  case (2 c cs)
  have "length (dropWhile reserved cs) \<le> length cs"
    by (rule length_dropWhile_le)
  with 2 show ?case by (auto split: if_splits)
qed

lemma fallback_unreserved: "c \<in> set ''unknown_source'' \<Longrightarrow> \<not> reserved c"
  by (auto simp: reserved_def)

lemma sanitize_filename_clean:
  assumes "c \<in> set (sanitize_filename s)"
  shows "\<not> reserved c"
proof (cases "s = []")
  case True
  with assms have "c \<in> set ''unknown_source''"
    by (simp add: sanitize_filename_def)
  then show ?thesis by (rule fallback_unreserved)
next
  case False
  with assms have "c \<in> set (re_sub s)"
    by (auto simp: sanitize_filename_def dest: in_set_takeD)
  then show ?thesis by (rule re_sub_clean)
qed

lemma sanitize_filename_not_Nil: "sanitize_filename s \<noteq> []"
  by (simp add: sanitize_filename_def re_sub_not_Nil)

lemma length_sanitize_filename_le: "length (sanitize_filename s) \<le> 200"
  by (simp add: sanitize_filename_def)

lemma sanitize_filename_safe:
  assumes "s \<noteq> []" and "\<forall>c \<in> set s. \<not> reserved c" and "length s \<le> 200"
  shows "sanitize_filename s = s"
  using assms by (simp add: sanitize_filename_def re_sub_unreserved)

lemma collapse_dropWhile: "collapse True (dropWhile reserved cs) = collapse True cs"
  by (induction cs) auto

lemma collapse_head: "cs = [] \<or> \<not> reserved (hd cs) \<Longrightarrow> collapse p cs = collapse q cs"
  by (cases cs) auto

lemma dropWhile_head: "dropWhile P cs = [] \<or> \<not> P (hd (dropWhile P cs))"
  by (metis hd_dropWhile)

lemma re_sub_collapse: "re_sub s = collapse False s"
proof (induction s rule: re_sub.induct)
  case 1
  show ?case by simp
next
  case (2 c cs)
  show ?case
  proof (cases "reserved c")
    case True
    have "collapse False (dropWhile reserved cs) = collapse True (dropWhile reserved cs)"
      by (rule collapse_head) (rule dropWhile_head)
    with True 2 show ?thesis by (simp add: collapse_dropWhile)
  next
    case False
    with 2 show ?thesis by simp
  qed
qed

lemma at_pos_Suc: "at_pos prev (c # cs) (Suc i) = at_pos (reserved c) cs i"
  by (cases i) (simp_all add: at_pos_def)

lemma collapse_positions: "collapse prev s = concat (map (at_pos prev s) [0..<length s])"
proof (induction s arbitrary: prev)
  case Nil
  show ?case by simp
next
  case (Cons c cs)
  have "[0..<length (c # cs)] = 0 # map Suc [0..<length cs]"
    by (simp add: upt_conv_Cons map_Suc_upt del: upt_Suc)
  then have "concat (map (at_pos prev (c # cs)) [0..<length (c # cs)])
      = at_pos prev (c # cs) 0 @ concat (map (at_pos (reserved c) cs) [0..<length cs])"
    by (simp add: comp_def at_pos_Suc del: upt_Suc)
  also have "\<dots> = at_pos prev (c # cs) 0 @ collapse (reserved c) cs"
    by (simp only: Cons.IH)
  also have "\<dots> = collapse prev (c # cs)"
    by (simp add: at_pos_def)
  finally show ?case by simp
qed

lemma re_sub_spaced:
  "\<forall>i. Suc i < length s \<longrightarrow> \<not> (reserved (s ! i) \<and> reserved (s ! Suc i)) \<Longrightarrow>
     length (re_sub s) = length s"
proof (induction s rule: re_sub.induct)
  case 1
  show ?case by simp
next
  case (2 c cs)
  have tl: "\<forall>i. Suc i < length cs \<longrightarrow> \<not> (reserved (cs ! i) \<and> reserved (cs ! Suc i))"
  proof (intro allI impI)
    fix i assume "Suc i < length cs"
    with 2(3) [rule_format, of "Suc i"] show "\<not> (reserved (cs ! i) \<and> reserved (cs ! Suc i))"
      by simp
  qed
  show ?case
  proof (cases "reserved c")
    case True
    have "cs = [] \<or> \<not> reserved (hd cs)"
    proof (cases cs)
      case Nil
      then show ?thesis by simp
    next
      case (Cons d ds)
      with 2(3) [rule_format, of 0] True show ?thesis by simp
    qed
    then have "dropWhile reserved cs = cs"
      by (cases cs) auto
    with True 2(1) tl show ?thesis by simp
  next
    case False
    with 2(2) tl show ?thesis by simp
  qed
qed

lemma at_pos_False:
  "at_pos False url =
     (\<lambda>i. if reserved (url ! i)
          then (if 0 < i \<and> reserved (url ! (i - 1)) then [] else ''_'')
          else [url ! i])"
  by (rule ext) (simp add: at_pos_def)

lemma re_sub_replicate: "reserved c \<Longrightarrow> re_sub (replicate (Suc n) c) = ''_''"
  by simp

lemma filter_dropWhile_not: "filter (\<lambda>c. \<not> P c) (dropWhile P xs) = filter (\<lambda>c. \<not> P c) xs"
  by (induction xs) auto

lemma re_sub_keeps: "length (filter (\<lambda>c. \<not> reserved c) s) \<le> length (re_sub s)"
proof (induction s rule: re_sub.induct)
  case 1
  show ?case by simp
next
  case (2 c cs)
  show ?case
  proof (cases "reserved c")
    case True
    have "filter (\<lambda>c. \<not> reserved c) (dropWhile reserved cs) = filter (\<lambda>c. \<not> reserved c) cs"
      by (rule filter_dropWhile_not)
    with True 2(1) show ?thesis by simp
  next
    case False
    with 2(2) show ?thesis by simp
  qed
qed

lemma length_concat_indicator:
  "\<forall>x \<in> set xs. length (f x) = (if P x then 1 else 0) \<Longrightarrow>
     length (concat (map f xs)) = length (filter P xs)"
  by (induction xs) auto

lemma length_re_sub_count:
  "length (re_sub s) =
     length (filter (\<lambda>i. \<not> (0 < i \<and> reserved (s ! (i - 1)) \<and> reserved (s ! i)))
       [0..<length s])"
proof -
  have "re_sub s = concat (map (at_pos False s) [0..<length s])"
    by (simp only: re_sub_collapse collapse_positions)
  moreover have "\<forall>i \<in> set [0..<length s]. length (at_pos False s i) =
      (if \<not> (0 < i \<and> reserved (s ! (i - 1)) \<and> reserved (s ! i)) then 1 else 0)"
    by (simp add: at_pos_def)
  ultimately show ?thesis by (simp only: length_concat_indicator)
qed

subsection \<open>Facts about paths and polling\<close>

lemma rfind_less: "rfind c xs = Some i \<Longrightarrow> i < length xs"
  by (induction xs arbitrary: i) (auto split: option.splits if_splits)

lemma suffix_download_name:
  assumes "suffix p = ''.download''"
  shows "\<exists>stem. stem \<noteq> [] \<and> name p = stem @ ''.download''"
proof -
  from assms obtain i where i: "rfind (CHR ''.'') (name p) = Some i" "0 < i"
      and d: "drop i (name p) = ''.download''"
    by (auto simp: suffix_def split: option.splits if_splits)
  from i(1) have "i < length (name p)" by (rule rfind_less)
  with i(2) have "take i (name p) \<noteq> []" by auto
  moreover have "name p = take i (name p) @ ''.download''"
    using d append_take_drop_id [of i "name p"] by simp
  ultimately show ?thesis by blast
qed

lemma join_last: "xs \<noteq> [] \<Longrightarrow> \<exists>pre. join sep xs = pre @ last xs"
proof (induction sep xs rule: join.induct)
  case (1 sep)
  then show ?case by simp
next
  case (2 sep x)
  show ?case by simp
next
  case (3 sep x y ys)
  then obtain pre where "join sep (y # ys) = pre @ last (y # ys)" by auto
  then have "join sep (x # y # ys) = (x @ sep @ pre) @ last (x # y # ys)" by simp
  then show ?case by blast
qed

lemma str_download:
  assumes "suffix p = ''.download''"
  shows "str p = take (length (str p) - 9) (str p) @ ''.download''"
proof -
  from suffix_download_name [OF assms] obtain stem
    where stem: "stem \<noteq> []" "name p = stem @ ''.download''" by blast
  then have tl: "path_tail p \<noteq> []" and l: "last (path_tail p) = stem @ ''.download''"
    by (auto simp: name_def split: if_splits)
  from join_last [OF tl] obtain pre where "join ''/'' (path_tail p) = pre @ last (path_tail p)"
    by blast
  with l have "str p = (path_root p @ pre @ stem) @ ''.download''"
    by (simp add: str_def)
  then show ?thesis by simp
qed

lemma os_time_sleep_funpow: "os ((time_sleep e d ^^ k) st) = (sleep e d ^^ k) (os st)"
  by (induction k) (simp_all add: time_sleep_def)

lemma stdout_time_sleep_funpow: "stdout ((time_sleep e d ^^ k) st) = stdout st"
  by (induction k) (simp_all add: time_sleep_def)

lemma poll_deadline_aux:
  assumes adv: "\<forall>w. clock w + 1 \<le> clock (sleep e 1 w)"
  shows "nat \<lceil>t0 + real_of_int timeout - clock (os st)\<rceil> \<le> n \<Longrightarrow>
     \<forall>k. \<not> (str path \<notin> files ((sleep e 1 ^^ k) (os st)) \<and>
              str final \<in> files ((sleep e 1 ^^ k) (os st))) \<Longrightarrow>
     \<exists>k\<le>n. poll e path final t0 timeout st =
            Some (path, print (Timed_out (name path)) ((time_sleep e 1 ^^ k) st)) \<and>
          t0 + real_of_int timeout \<le> clock ((sleep e 1 ^^ k) (os st)) \<and>
          (\<forall>j<k. clock ((sleep e 1 ^^ j) (os st)) - t0 < real_of_int timeout)"
proof (induction n arbitrary: st)
  case 0
  then have le: "t0 + real_of_int timeout - clock (os st) \<le> 0"
    by (simp add: ceiling_le_zero)
  then have "\<not> clock (os st) - t0 < real_of_int timeout" by simp
  then have "poll e path final t0 timeout st
      = Some (path, print (Timed_out (name path)) ((time_sleep e 1 ^^ 0) st))"
    by (subst poll.simps) simp
  moreover have "t0 + real_of_int timeout \<le> clock ((sleep e 1 ^^ 0) (os st))"
    using le by simp
  ultimately show ?case by simp
next
  case (Suc n)
  show ?case
  proof (cases "clock (os st) - t0 < real_of_int timeout")
    case False
    then have "poll e path final t0 timeout st
        = Some (path, print (Timed_out (name path)) ((time_sleep e 1 ^^ 0) st))"
      by (subst poll.simps) simp
    moreover have "t0 + real_of_int timeout \<le> clock ((sleep e 1 ^^ 0) (os st))"
      using False by simp
    moreover have "\<forall>j<0::nat. clock ((sleep e 1 ^^ j) (os st)) - t0 < real_of_int timeout"
      by simp
    moreover have "(0::nat) \<le> Suc n" by simp
    ultimately show ?thesis by blast
  next
    case True
    let ?st = "time_sleep e 1 st"
    have now: "\<not> (\<not> exists st path \<and> exists st final)"
      using Suc.prems(2) [rule_format, of 0] by (simp add: exists_def)
    have step: "poll e path final t0 timeout st = poll e path final t0 timeout ?st"
      using True now by (subst poll.simps) auto
    have os: "os ?st = sleep e 1 (os st)" by (simp add: time_sleep_def)
    have "clock (os st) + 1 \<le> clock (os ?st)"
      using adv by (simp add: os)
    then have "t0 + real_of_int timeout - clock (os ?st)
        \<le> t0 + real_of_int timeout - clock (os st) - 1" by simp
    then have "\<lceil>t0 + real_of_int timeout - clock (os ?st)\<rceil>
        \<le> \<lceil>t0 + real_of_int timeout - clock (os st)\<rceil> - 1"
      by (metis ceiling_mono ceiling_diff_one)
    with Suc.prems(1) have m: "nat \<lceil>t0 + real_of_int timeout - clock (os ?st)\<rceil> \<le> n"
      by linarith
    have never: "\<forall>k. \<not> (str path \<notin> files ((sleep e 1 ^^ k) (os ?st)) \<and>
              str final \<in> files ((sleep e 1 ^^ k) (os ?st)))"
    proof
      fix k
      show "\<not> (str path \<notin> files ((sleep e 1 ^^ k) (os ?st)) \<and>
              str final \<in> files ((sleep e 1 ^^ k) (os ?st)))"
        using Suc.prems(2) [rule_format, of "Suc k"] by (simp add: os funpow_swap1)
    qed
    from Suc.IH [OF m never] obtain k where
      k: "k \<le> n"
         "poll e path final t0 timeout ?st =
            Some (path, print (Timed_out (name path)) ((time_sleep e 1 ^^ k) ?st))"
         "t0 + real_of_int timeout \<le> clock ((sleep e 1 ^^ k) (os ?st))"
         "\<forall>j<k. clock ((sleep e 1 ^^ j) (os ?st)) - t0 < real_of_int timeout"
      by blast
    have "poll e path final t0 timeout st =
            Some (path, print (Timed_out (name path)) ((time_sleep e 1 ^^ Suc k) st))"
      using step k(2) by (simp add: funpow_swap1)
    moreover have "t0 + real_of_int timeout \<le> clock ((sleep e 1 ^^ Suc k) (os st))"
      using k(3) by (simp add: os funpow_swap1)
    moreover have "\<forall>j<Suc k. clock ((sleep e 1 ^^ j) (os st)) - t0 < real_of_int timeout"
    proof (intro allI impI)
      fix j assume j: "j < Suc k"
      show "clock ((sleep e 1 ^^ j) (os st)) - t0 < real_of_int timeout"
      proof (cases j)
        case 0
        with True show ?thesis by simp
      next
        case (Suc i)
        with j have "i < k" by simp
        with k(4) have "clock ((sleep e 1 ^^ i) (os ?st)) - t0 < real_of_int timeout" by blast
        with Suc show ?thesis by (simp add: os funpow_swap1)
      qed
    qed
    moreover from k(1) have "Suc k \<le> Suc n" by simp
    ultimately show ?thesis by blast
  qed
qed

lemma late_return:
  assumes over: "\<forall>w. clock (sleep e 1 w) \<le> clock w + 1 + d"
    and adv: "\<forall>w. clock w + 1 \<le> clock (sleep e 1 w)"
    and t: "0 \<le> timeout"
    and before: "\<forall>j<k. clock ((sleep e 1 ^^ j) w) - clock w < real_of_int timeout"
  shows "clock ((sleep e 1 ^^ k) w) < clock w + real_of_int timeout + 1 + d"
proof (cases k)
  case 0
  from over [rule_format, of w] adv [rule_format, of w] have "0 \<le> d" by simp
  with 0 t show ?thesis by simp
next
  case (Suc i)
  with before have "clock ((sleep e 1 ^^ i) w) - clock w < real_of_int timeout" by simp
  moreover from over [rule_format, of "(sleep e 1 ^^ i) w"]
  have "clock ((sleep e 1 ^^ Suc i) w) \<le> clock ((sleep e 1 ^^ i) w) + 1 + d" by simp
  ultimately show ?thesis using Suc by simp
qed

lemma poll_timeout:
  assumes "\<forall>w. clock w + 1 \<le> clock (sleep e 1 w)"
    and "\<forall>k. \<not> (str path \<notin> files ((sleep e 1 ^^ k) (os st)) \<and>
              str final \<in> files ((sleep e 1 ^^ k) (os st)))"
  shows "\<exists>k. poll e path final t0 timeout st =
            Some (path, print (Timed_out (name path)) ((time_sleep e 1 ^^ k) st)) \<and>
          t0 + real_of_int timeout \<le> clock ((sleep e 1 ^^ k) (os st))"
  using poll_deadline_aux [OF assms(1) le_refl assms(2)] by blast

lemma poll_success:
  "\<forall>j\<le>k. clock ((sleep e 1 ^^ j) (os st)) - t0 < real_of_int timeout \<Longrightarrow>
   str path \<notin> files ((sleep e 1 ^^ k) (os st)) \<Longrightarrow>
   str final \<in> files ((sleep e 1 ^^ k) (os st)) \<Longrightarrow>
   \<exists>j\<le>k. poll e path final t0 timeout st =
     Some (final, print (Download_complete (name final)) ((time_sleep e 1 ^^ j) st))"
proof (induction k arbitrary: st)
  case 0
  then have "poll e path final t0 timeout st =
     Some (final, print (Download_complete (name final)) ((time_sleep e 1 ^^ 0) st))"
    by (subst poll.simps) (simp add: exists_def)
  then show ?case by blast
next
  case (Suc k)
  let ?st = "time_sleep e 1 st"
  have os: "os ?st = sleep e 1 (os st)" by (simp add: time_sleep_def)
  have t: "clock (os st) - t0 < real_of_int timeout"
    using Suc.prems(1) [rule_format, of 0] by simp
  show ?case
  proof (cases "\<not> exists st path \<and> exists st final")
    case True
    with t have "poll e path final t0 timeout st =
       Some (final, print (Download_complete (name final)) ((time_sleep e 1 ^^ 0) st))"
      by (subst poll.simps) simp
    then show ?thesis by blast
  next
    case False
    with t have step: "poll e path final t0 timeout st = poll e path final t0 timeout ?st"
      by (subst poll.simps) auto
    have "\<forall>j\<le>k. clock ((sleep e 1 ^^ j) (os ?st)) - t0 < real_of_int timeout"
    proof (intro allI impI)
      fix j assume "j \<le> k"
      with Suc.prems(1) [rule_format, of "Suc j"]
      show "clock ((sleep e 1 ^^ j) (os ?st)) - t0 < real_of_int timeout"
        by (simp add: os funpow_swap1)
    qed
    moreover have "str path \<notin> files ((sleep e 1 ^^ k) (os ?st))"
      using Suc.prems(2) by (simp add: os funpow_swap1)
    moreover have "str final \<in> files ((sleep e 1 ^^ k) (os ?st))"
      using Suc.prems(3) by (simp add: os funpow_swap1)
    ultimately obtain j where j: "j \<le> k" "poll e path final t0 timeout ?st =
       Some (final, print (Download_complete (name final)) ((time_sleep e 1 ^^ j) ?st))"
      using Suc.IH by blast
    then have "Suc j \<le> Suc k" "poll e path final t0 timeout st =
       Some (final, print (Download_complete (name final)) ((time_sleep e 1 ^^ Suc j) st))"
      using step by (simp_all add: funpow_swap1)
    then show ?thesis by blast
  qed
qed

lemma Path_marker: "marker_path =
    \<lparr>path_root = ''/'', path_tail = [''Users'', ''u'', ''Downloads'', ''report.pdf.download'']\<rparr>"
  by (simp add: marker_path_def Path_def splitroot_def)

lemma Path_final: "final_path =
    \<lparr>path_root = ''/'', path_tail = [''Users'', ''u'', ''Downloads'', ''report.pdf'']\<rparr>"
  by (simp add: final_path_def Path_def splitroot_def)

lemma Path_photo: "photo_path =
    \<lparr>path_root = ''/'', path_tail = [''Users'', ''u'', ''Downloads'', ''photo.jpg'']\<rparr>"
  by (simp add: photo_path_def Path_def splitroot_def)

lemma str_marker: "str marker_path = ''/Users/u/Downloads/report.pdf.download''"
  by (simp add: Path_marker str_def)

lemma str_final: "str final_path = ''/Users/u/Downloads/report.pdf''"
  by (simp add: Path_final str_def)

lemma str_photo: "str photo_path = ''/Users/u/Downloads/photo.jpg''"
  by (simp add: Path_photo str_def)

lemma suffix_marker: "suffix marker_path = ''.download''"
  by (simp add: Path_marker suffix_def name_def)

lemma suffix_photo: "suffix photo_path = ''.jpg''"
  by (simp add: Path_photo suffix_def name_def)

lemma name_marker: "name marker_path = ''report.pdf.download''"
  by (simp add: Path_marker name_def)

lemma strip_marker: "Path (take (length (str marker_path) - 9) (str marker_path)) = final_path"
  by (simp add: str_marker final_path_def)

lemma demo_env_funpow:
  "(sleep demo_env 1 ^^ k) w = w\<lparr>clock := clock w + real k\<rparr>"
  by (induction k) (simp_all add: demo_env_def)

lemma finishing_env_2:
  "(sleep finishing_env 1 ^^ 2) (os (state_with {''/Users/u/Downloads/report.pdf.download''}))
     = \<lparr>clock = 2, files = {''/Users/u/Downloads/report.pdf''}\<rparr>"
  by (simp add: numeral_2_eq_2 finishing_env_def state_with_def)

section \<open>Claims\<close>

subsection \<open>Naming policy\<close>

text \<open>
  C1, as the code has it: for a non-empty string, every maximal run of consecutive
  reserved characters is replaced by one underscore. Position by position: a character
  outside the class is kept, a reserved character that starts a run becomes \<open>_\<close>, a
  reserved character that follows a reserved one is dropped; the result is cut to 200
  characters. The context string \<open>https://example.com/invoice?id=42\<close> becomes
  \<open>https_example.com_invoice_id=42\<close>: the run \<open>://\<close> gives one underscore, and \<open>=\<close> is
  not in the class.
\<close>

theorem sanitize_filename_runs:
  "(url \<noteq> [] \<longrightarrow>
      sanitize_filename url =
        take 200 (concat (map
          (\<lambda>i. if reserved (url ! i)
               then (if 0 < i \<and> reserved (url ! (i - 1)) then [] else ''_'')
               else [url ! i])
          [0..<length url]))) \<and>
   sanitize_filename ''https://example.com/invoice?id=42'' = ''https_example.com_invoice_id=42''"
proof -
  have "re_sub url = concat (map (at_pos False url) [0..<length url])"
    by (simp only: re_sub_collapse collapse_positions)
  then have "url \<noteq> [] \<longrightarrow> sanitize_filename url =
      take 200 (concat (map (at_pos False url) [0..<length url]))"
    by (simp add: sanitize_filename_def)
  moreover have "sanitize_filename ''https://example.com/invoice?id=42''
      = ''https_example.com_invoice_id=42''"
    by (simp add: sanitize_filename_def reserved_def)
  ultimately show ?thesis by (simp only: at_pos_False) 
qed

text \<open>
  The statement above at the string \<open>a://b?c\<close>.
\<close>

theorem sanitize_filename_runs_witness:
  "''a://b?c'' \<noteq> [] \<and> sanitize_filename ''a://b?c'' = ''a_b_c''"
proof -
  have h: "''a://b?c'' \<noteq> []" by simp
  have "[0..<length ''a://b?c''] = [0, 1, 2, 3, 4, 5, 6]"
    by (simp add: upt_rec)
  with sanitize_filename_runs [of "''a://b?c''"] h show ?thesis
    by (simp add: reserved_def)
qed

text \<open>
  C1 as the specification words it (one underscore for each reserved character, and the
  result \<open>https___example.com_invoice_id_42\<close> for the context string of the scenario)
  does not hold of the code.
\<close>

theorem sanitize_filename_collapses_counterexample:
  "sanitize_filename ''https://example.com/invoice?id=42'' = ''https_example.com_invoice_id=42'' \<and>
   sanitize_filename ''https://example.com/invoice?id=42'' \<noteq> ''https___example.com_invoice_id_42''"
  by (simp add: sanitize_filename_def reserved_def)

text \<open>
  C2: the result of \<open>sanitize_filename\<close> contains no reserved character, whatever the
  input contains; in particular neither path separator, \<open>/\<close> or backslash.
\<close>

theorem sanitize_filename_no_reserved:
  "(c \<in> set (sanitize_filename s) \<longrightarrow> \<not> reserved c) \<and>
   CHR ''/'' \<notin> set (sanitize_filename s) \<and> CHR 0x5C \<notin> set (sanitize_filename s)"
proof -
  have "reserved (CHR ''/'')" and "reserved (CHR 0x5C)"
    by (simp_all add: reserved_def)
  then show ?thesis using sanitize_filename_clean by blast
qed

text \<open>
  The statement above at the string \<open>a/b<c>\<close>, whose result contains an underscore.
\<close>

theorem sanitize_filename_no_reserved_witness:
  "CHR ''_'' \<in> set (sanitize_filename ''a/b<c>'') \<and> \<not> reserved (CHR ''_'') \<and>
   CHR ''/'' \<notin> set (sanitize_filename ''a/b<c>'')"
proof -
  have h: "CHR ''_'' \<in> set (sanitize_filename ''a/b<c>'')"
    by (simp add: sanitize_filename_def reserved_def)
  with sanitize_filename_no_reserved [of "CHR ''_''" "''a/b<c>''"] show ?thesis by blast
qed

text \<open>
  C3, as the code has it: the result is never longer than 200 characters. For a
  non-empty input its length is the smaller of 200 and the length the input has once
  every run of reserved characters counts as one character, that is, the number of
  positions that do not hold a reserved character directly after a reserved one. So the
  result has exactly 200 characters whenever that number is at least 200: in particular
  when the input has at least 200 characters outside the class, and when it is longer
  than 200 and no two reserved characters of it are adjacent.
\<close>

theorem sanitize_filename_length:
  "length (sanitize_filename s) \<le> 200 \<and>
   (s \<noteq> [] \<longrightarrow>
      length (sanitize_filename s) =
        min 200 (length (filter (\<lambda>i. \<not> (0 < i \<and> reserved (s ! (i - 1)) \<and> reserved (s ! i)))
          [0..<length s]))) \<and>
   (200 \<le> length (filter (\<lambda>c. \<not> reserved c) s) \<longrightarrow> length (sanitize_filename s) = 200) \<and>
   (200 < length s \<and>
    (\<forall>i. Suc i < length s \<longrightarrow> \<not> (reserved (s ! i) \<and> reserved (s ! Suc i))) \<longrightarrow>
    length (sanitize_filename s) = 200)"
proof (intro conjI impI)
  show "length (sanitize_filename s) \<le> 200" by (rule length_sanitize_filename_le)
next
  assume "s \<noteq> []"
  then have "length (sanitize_filename s) = min 200 (length (re_sub s))"
    by (simp add: sanitize_filename_def min_def)
  then show "length (sanitize_filename s) =
      min 200 (length (filter (\<lambda>i. \<not> (0 < i \<and> reserved (s ! (i - 1)) \<and> reserved (s ! i)))
        [0..<length s]))"
    by (simp only: length_re_sub_count)
next
  assume a: "200 \<le> length (filter (\<lambda>c. \<not> reserved c) s)"
  then have "s \<noteq> []" by auto
  moreover from a re_sub_keeps [of s] have "200 \<le> length (re_sub s)" by simp
  ultimately show "length (sanitize_filename s) = 200"
    by (simp add: sanitize_filename_def)
next
  assume a: "200 < length s \<and>
    (\<forall>i. Suc i < length s \<longrightarrow> \<not> (reserved (s ! i) \<and> reserved (s ! Suc i)))"
  then have "length (re_sub s) = length s" by (intro re_sub_spaced) simp
  moreover from a have "s \<noteq> []" by auto
  ultimately show "length (sanitize_filename s) = 200"
    using a by (simp add: sanitize_filename_def)
qed

text \<open>
  The statement above at \<open>https://\<close> followed by 300 letters (308 characters, result of
  length 200), at \<open>a://b\<close> (result of length 3) and at a slash followed by 200 letters.
\<close>

theorem sanitize_filename_length_witness:
  "200 < length (''https://'' @ replicate 300 (CHR ''a'')) \<and>
   length (sanitize_filename (''https://'' @ replicate 300 (CHR ''a''))) = 200 \<and>
   ''a://b'' \<noteq> [] \<and> length (sanitize_filename ''a://b'') = 3 \<and>
   200 < length (CHR ''/'' # replicate 200 (CHR ''a'')) \<and>
   length (sanitize_filename (CHR ''/'' # replicate 200 (CHR ''a''))) = 200"
proof -
  let ?u = "''https://'' @ replicate 300 (CHR ''a'')"
  let ?s = "CHR ''/'' # replicate 200 (CHR ''a'')"
  have "200 \<le> length (filter (\<lambda>c. \<not> reserved c) ?u)"
    by (simp add: reserved_def)
  with sanitize_filename_length [of ?u] have u: "length (sanitize_filename ?u) = 200"
    by blast
  have "[0..<length ''a://b''] = [0, 1, 2, 3, 4]"
    by (simp add: upt_rec)
  with sanitize_filename_length [of "''a://b''"] have b: "length (sanitize_filename ''a://b'') = 3"
    by (simp add: reserved_def)
  have "\<forall>i. Suc i < length ?s \<longrightarrow> \<not> (reserved (?s ! i) \<and> reserved (?s ! Suc i))"
    by (simp add: reserved_def)
  moreover have "200 < length ?s" by simp
  ultimately have s: "length (sanitize_filename ?s) = 200"
    using sanitize_filename_length [of ?s] by blast
  from u b s show ?thesis by simp
qed

text \<open>
  C3 as the specification words it (every input longer than 200 characters gives exactly
  200) does not hold of the code: 201 slashes are one run, and the result is one
  underscore.
\<close>

theorem sanitize_filename_length_counterexample:
  "200 < length (replicate 201 (CHR ''/'')) \<and>
   length (sanitize_filename (replicate 201 (CHR ''/''))) = 1 \<and>
   length (sanitize_filename (replicate 201 (CHR ''/''))) \<noteq> 200"
proof -
  have "reserved (CHR ''/'')" by (simp add: reserved_def)
  then have "re_sub (replicate (Suc 200) (CHR ''/'')) = ''_''" by (rule re_sub_replicate)
  moreover have "replicate 201 (CHR ''/'') = replicate (Suc 200) (CHR ''/'')" by simp
  ultimately have "re_sub (replicate 201 (CHR ''/'')) = ''_''" by (simp only:)
  then show ?thesis by (simp add: sanitize_filename_def)
qed

text \<open>
  C4: for the empty string the naming policy returns the fixed fallback token
  \<open>unknown_source\<close>.
\<close>

theorem sanitize_filename_empty: "sanitize_filename [] = ''unknown_source''"
  by (simp add: sanitize_filename_def)

text \<open>
  C5: the naming policy is idempotent, and a string that is already safe (not empty, no
  reserved character, at most 200 characters) is returned unchanged.
\<close>

theorem sanitize_filename_idempotent:
  "sanitize_filename (sanitize_filename s) = sanitize_filename s \<and>
   (s \<noteq> [] \<and> (\<forall>c \<in> set s. \<not> reserved c) \<and> length s \<le> 200 \<longrightarrow> sanitize_filename s = s)"
proof -
  have "sanitize_filename (sanitize_filename s) = sanitize_filename s"
  proof (rule sanitize_filename_safe)
    show "sanitize_filename s \<noteq> []" by (rule sanitize_filename_not_Nil)
    show "\<forall>c \<in> set (sanitize_filename s). \<not> reserved c"
      using sanitize_filename_clean by blast
    show "length (sanitize_filename s) \<le> 200" by (rule length_sanitize_filename_le)
  qed
  then show ?thesis using sanitize_filename_safe by blast
qed

text \<open>
  The statement above at \<open>a://b\<close> and at the safe name \<open>invoice_42.pdf\<close>.
\<close>

theorem sanitize_filename_idempotent_witness:
  "sanitize_filename (sanitize_filename ''a://b'') = sanitize_filename ''a://b'' \<and>
   ''invoice_42.pdf'' \<noteq> [] \<and> length ''invoice_42.pdf'' \<le> 200 \<and>
   sanitize_filename ''invoice_42.pdf'' = ''invoice_42.pdf''"
proof -
  have "\<forall>c \<in> set ''invoice_42.pdf''. \<not> reserved c"
    by (simp add: reserved_def)
  with sanitize_filename_idempotent [of "''invoice_42.pdf''"]
    sanitize_filename_idempotent [of "''a://b''"]
  show ?thesis by simp
qed

text \<open>
  C10: \<open>sanitize_filename\<close> never returns the empty string, so the file name that
  \<open>process_event\<close> builds from it, \<open>safe_name\<close> followed by the suffix, starts with a
  base name that is not empty.
\<close>

theorem sanitize_filename_nonempty:
  "sanitize_filename url \<noteq> [] \<and> sanitize_filename url @ suffix path \<noteq> []"
  by (simp add: sanitize_filename_not_Nil)

subsection \<open>Stability resolver\<close>

text \<open>
  C6: a path whose suffix is not \<open>.download\<close> is returned as it is, at once: the state
  is the one the resolver was called in, so the clock has not moved (nothing slept) and
  nothing was printed.
\<close>

theorem wait_without_marker:
  "suffix path \<noteq> ''.download'' \<Longrightarrow> wait_for_download_complete e path timeout st = Some (path, st)"
  by (simp add: wait_for_download_complete_def)

text \<open>
  The statement above at \<open>photo.jpg\<close>.
\<close>

theorem wait_without_marker_witness:
  "suffix photo_path \<noteq> ''.download'' \<and>
   wait_for_download_complete demo_env photo_path 60 (state_with {''/Users/u/Downloads/photo.jpg''})
     = Some (photo_path, state_with {''/Users/u/Downloads/photo.jpg''})"
proof -
  have h: "suffix photo_path \<noteq> ''.download''" by (simp add: suffix_photo)
  from h wait_without_marker [OF h] show ?thesis by simp
qed

text \<open>
  C7, as the code has it: let the path carry the suffix \<open>.download\<close>; then cutting the
  last nine characters off cuts exactly that suffix off. If at the poll after \<open>k\<close>
  sleeps the marker file does not exist and the final file exists, and every poll up to
  that one is taken before the timeout has elapsed, the resolver returns the final path,
  having printed that it waits and that the download is complete. The worlds the polls
  see are \<open>(sleep e 1 ^^ j) (os st)\<close>, \<open>j = 0, 1, 2, ...\<close>
\<close>

theorem wait_marker_replaced:
  assumes "suffix path = ''.download''"
    and "\<forall>j\<le>k. clock ((sleep e 1 ^^ j) (os st)) - clock (os st) < real_of_int timeout"
    and "str path \<notin> files ((sleep e 1 ^^ k) (os st))"
    and "str (Path (take (length (str path) - 9) (str path))) \<in> files ((sleep e 1 ^^ k) (os st))"
  shows "str path = take (length (str path) - 9) (str path) @ ''.download'' \<and>
    (\<exists>st'. wait_for_download_complete e path timeout st
        = Some (Path (take (length (str path) - 9) (str path)), st') \<and>
      stdout st' = stdout st @
        [Waiting (name path),
         Download_complete (name (Path (take (length (str path) - 9) (str path))))])"
proof -
  let ?final = "Path (take (length (str path) - 9) (str path))"
  let ?st1 = "print (Waiting (name path)) st"
  have os1: "os ?st1 = os st" by (simp add: print_def)
  have a: "\<forall>j\<le>k. clock ((sleep e 1 ^^ j) (os ?st1)) - clock (os ?st1) < real_of_int timeout"
    unfolding os1 by (rule assms(2))
  have b: "str path \<notin> files ((sleep e 1 ^^ k) (os ?st1))"
    unfolding os1 by (rule assms(3))
  have c: "str ?final \<in> files ((sleep e 1 ^^ k) (os ?st1))"
    unfolding os1 by (rule assms(4))
  from poll_success [OF a b c] obtain j where "poll e path ?final (clock (os ?st1)) timeout ?st1 =
     Some (?final, print (Download_complete (name ?final)) ((time_sleep e 1 ^^ j) ?st1))"
    by blast
  with assms(1) have "wait_for_download_complete e path timeout st =
     Some (?final, print (Download_complete (name ?final)) ((time_sleep e 1 ^^ j) ?st1))"
    by (simp add: wait_for_download_complete_def Let_def)
  moreover have "stdout (print (Download_complete (name ?final)) ((time_sleep e 1 ^^ j) ?st1))
      = stdout st @ [Waiting (name path), Download_complete (name ?final)]"
    by (simp add: print_def stdout_time_sleep_funpow)
  ultimately show ?thesis using str_download [OF assms(1)] by blast
qed

text \<open>
  The statement above in the world where the download completes at time 2.
\<close>

theorem wait_marker_replaced_witness:
  "suffix marker_path = ''.download'' \<and>
   map_option fst (wait_for_download_complete finishing_env marker_path 60
      (state_with {''/Users/u/Downloads/report.pdf.download''})) = Some final_path"
proof -
  let ?st = "state_with {''/Users/u/Downloads/report.pdf.download''}"
  have a: "\<forall>j\<le>2. clock ((sleep finishing_env 1 ^^ j) (os ?st)) - clock (os ?st) < real_of_int 60"
  proof (intro allI impI)
    fix j :: nat assume "j \<le> 2"
    then have "j = 0 \<or> j = 1 \<or> j = 2" by arith
    then show "clock ((sleep finishing_env 1 ^^ j) (os ?st)) - clock (os ?st) < real_of_int 60"
      by (auto simp: finishing_env_2) (simp_all add: finishing_env_def state_with_def)
  qed
  have b: "str marker_path \<notin> files ((sleep finishing_env 1 ^^ 2) (os ?st))"
    by (simp add: finishing_env_2 str_marker)
  have c: "str (Path (take (length (str marker_path) - 9) (str marker_path)))
      \<in> files ((sleep finishing_env 1 ^^ 2) (os ?st))"
    by (simp only: strip_marker) (simp add: finishing_env_2 str_final)
  from wait_marker_replaced [OF suffix_marker a b c] show ?thesis
    by (auto simp: strip_marker suffix_marker)
qed

text \<open>
  C7 as the specification words it asks only that the final file appears within the
  timeout. The code also asks that the marker file is gone: where both files exist all
  the time, the resolver waits for the timeout and returns the marker path.
\<close>

theorem wait_marker_kept_counterexample:
  "suffix marker_path = ''.download'' \<and>
   str final_path \<in> files (os (state_with {str marker_path, str final_path})) \<and>
   Path (take (length (str marker_path) - 9) (str marker_path)) = final_path \<and>
   map_option fst (wait_for_download_complete demo_env marker_path 60
      (state_with {str marker_path, str final_path})) = Some marker_path \<and>
   marker_path \<noteq> final_path"
proof -
  let ?st = "print (Waiting (name marker_path)) (state_with {str marker_path, str final_path})"
  have adv: "\<forall>w. clock w + 1 \<le> clock (sleep demo_env 1 w)"
    by (simp add: demo_env_def)
  have stay: "\<forall>k. \<not> (str marker_path \<notin> files ((sleep demo_env 1 ^^ k) (os ?st)) \<and>
      str final_path \<in> files ((sleep demo_env 1 ^^ k) (os ?st)))"
    by (simp add: demo_env_funpow print_def state_with_def)
  from poll_timeout [OF adv stay, of "clock (os ?st)" 60]
  have "map_option fst (poll demo_env marker_path final_path (clock (os ?st)) 60 ?st)
      = Some marker_path"
    by auto
  then have "map_option fst (wait_for_download_complete demo_env marker_path 60
      (state_with {str marker_path, str final_path})) = Some marker_path"
    by (simp add: wait_for_download_complete_def suffix_marker strip_marker Let_def)
  moreover have "marker_path \<noteq> final_path"
    by (simp add: Path_marker Path_final)
  ultimately show ?thesis
    by (simp add: suffix_marker strip_marker state_with_def)
qed

text \<open>
  C8: let the path carry the suffix \<open>.download\<close>, and let every \<open>time.sleep(1)\<close> advance
  the clock by at least one second. If the final file exists at none of the polls
  (whether the marker file is there or not), the resolver returns: it returns the marker
  path it was given, having printed that it waits and then the warning that it timed
  out. It returns at the first poll at which the timeout has elapsed: after \<open>k\<close> sleeps,
  where the clock has then advanced by the timeout or more and had not at any poll
  before. The number of sleeps is at most the timeout in seconds. If moreover no sleep
  takes longer than \<open>1 + d\<close> seconds, the resolver returns less than \<open>1 + d\<close> seconds
  after the timeout has elapsed.
\<close>

theorem wait_bounded:
  assumes "suffix path = ''.download''"
    and "\<forall>w. clock w + 1 \<le> clock (sleep e 1 w)"
    and "\<forall>k. str (Path (take (length (str path) - 9) (str path)))
            \<notin> files ((sleep e 1 ^^ k) (os st))"
  shows "\<exists>k st'. wait_for_download_complete e path timeout st = Some (path, st') \<and>
      os st' = (sleep e 1 ^^ k) (os st) \<and>
      stdout st' = stdout st @ [Waiting (name path), Timed_out (name path)] \<and>
      clock (os st) + real_of_int timeout \<le> clock (os st') \<and>
      k \<le> nat timeout \<and>
      (\<forall>j<k. clock ((sleep e 1 ^^ j) (os st)) - clock (os st) < real_of_int timeout) \<and>
      (\<forall>d. 0 \<le> timeout \<and> (\<forall>w. clock (sleep e 1 w) \<le> clock w + 1 + d) \<longrightarrow>
           clock (os st') < clock (os st) + real_of_int timeout + 1 + d)"
proof -
  let ?final = "Path (take (length (str path) - 9) (str path))"
  let ?st1 = "print (Waiting (name path)) st"
  have os1: "os ?st1 = os st" by (simp add: print_def)
  from assms(3) have never: "\<forall>k. \<not> (str path \<notin> files ((sleep e 1 ^^ k) (os ?st1)) \<and>
      str ?final \<in> files ((sleep e 1 ^^ k) (os ?st1)))"
    by (simp add: os1)
  have m: "nat \<lceil>clock (os ?st1) + real_of_int timeout - clock (os ?st1)\<rceil> \<le> nat timeout"
    by simp
  from poll_deadline_aux [OF assms(2) m never] obtain k where
    k: "k \<le> nat timeout"
       "poll e path ?final (clock (os ?st1)) timeout ?st1 =
          Some (path, print (Timed_out (name path)) ((time_sleep e 1 ^^ k) ?st1))"
       "clock (os ?st1) + real_of_int timeout \<le> clock ((sleep e 1 ^^ k) (os ?st1))"
       "\<forall>j<k. clock ((sleep e 1 ^^ j) (os ?st1)) - clock (os ?st1) < real_of_int timeout"
    by blast
  let ?st' = "print (Timed_out (name path)) ((time_sleep e 1 ^^ k) ?st1)"
  from assms(1) k(2) have r: "wait_for_download_complete e path timeout st = Some (path, ?st')"
    by (simp add: wait_for_download_complete_def Let_def)
  have o: "os ?st' = (sleep e 1 ^^ k) (os st)"
    by (simp add: print_def os_time_sleep_funpow)
  have p: "stdout ?st' = stdout st @ [Waiting (name path), Timed_out (name path)]"
    by (simp add: print_def stdout_time_sleep_funpow)
  from k(3) have c: "clock (os st) + real_of_int timeout \<le> clock (os ?st')"
    by (simp add: print_def os_time_sleep_funpow)
  from k(4) have b: "\<forall>j<k. clock ((sleep e 1 ^^ j) (os st)) - clock (os st) < real_of_int timeout"
    by (simp only: os1)
  have l: "\<forall>d. 0 \<le> timeout \<and> (\<forall>w. clock (sleep e 1 w) \<le> clock w + 1 + d) \<longrightarrow>
           clock (os ?st') < clock (os st) + real_of_int timeout + 1 + d"
  proof (intro allI impI)
    fix d assume d: "0 \<le> timeout \<and> (\<forall>w. clock (sleep e 1 w) \<le> clock w + 1 + d)"
    then have "clock ((sleep e 1 ^^ k) (os st)) < clock (os st) + real_of_int timeout + 1 + d"
      using late_return [OF _ assms(2) _ b, of d] by blast
    then show "clock (os ?st') < clock (os st) + real_of_int timeout + 1 + d"
      by (simp only: o)
  qed
  from r o p c k(1) b l show ?thesis by blast
qed

text \<open>
  The statement above in a world without any file, where the marker has disappeared and
  the final file never comes, and where a sleep of one second takes one second: the
  resolver returns the marker path after 60 sleeps, at time 60.
\<close>

theorem wait_bounded_witness:
  "suffix marker_path = ''.download'' \<and>
   wait_for_download_complete demo_env marker_path 60 (state_with {}) =
     Some (marker_path,
       \<lparr>os = \<lparr>clock = 60, files = {}\<rparr>,
        stdout = [Waiting ''report.pdf.download'', Timed_out ''report.pdf.download'']\<rparr>)"
proof -
  have adv: "\<forall>w. clock w + 1 \<le> clock (sleep demo_env 1 w)"
    by (simp add: demo_env_def)
  have never: "\<forall>k. str (Path (take (length (str marker_path) - 9) (str marker_path)))
      \<notin> files ((sleep demo_env 1 ^^ k) (os (state_with {})))"
    by (simp add: demo_env_funpow state_with_def)
  from wait_bounded [OF suffix_marker adv never, of 60] obtain k st' where
    r: "wait_for_download_complete demo_env marker_path 60 (state_with {}) = Some (marker_path, st')"
    and o: "os st' = (sleep demo_env 1 ^^ k) (os (state_with {}))"
    and p: "stdout st' = stdout (state_with {}) @
        [Waiting (name marker_path), Timed_out (name marker_path)]"
    and c: "clock (os (state_with {})) + real_of_int 60 \<le> clock (os st')"
    and k: "k \<le> nat 60"
    by blast
  from o have o': "os st' = \<lparr>clock = real k, files = {}\<rparr>"
    by (simp add: demo_env_funpow state_with_def)
  with c have "60 \<le> k" by (simp add: state_with_def)
  with k have "k = 60" by simp
  with o' p have "st' = \<lparr>os = \<lparr>clock = 60, files = {}\<rparr>,
        stdout = [Waiting ''report.pdf.download'', Timed_out ''report.pdf.download'']\<rparr>"
    by (cases st') (simp add: state_with_def name_marker)
  with r show ?thesis by (simp add: suffix_marker)
qed

subsection \<open>Relocation\<close>

text \<open>
  C9: if \<open>shutil.move\<close> raises an \<open>Exception\<close>, leaving the world \<open>w\<close>, then
  \<open>process_event\<close> returns normally (no exception leaves the handler), its last printed
  line reports the failure with the name of the file and the text of the exception, and
  the world it ends in is \<open>w\<close>: nothing is tried again and no file is touched after the
  failed move.
\<close>

theorem process_event_move_fails:
  assumes "exists st path"
    and "wait_for_download_complete e path 60 (print (Detected (name path)) st) = Some (path', st1)"
    and "get_safari_url e (time_sleep e WAIT_TIME st1) = Inr url"
    and "move e (str path')
           (str (truediv (DEST_DIR e) (sanitize_filename url @ suffix path')))
           (os (time_sleep e WAIT_TIME st1)) = (Some (Exception msg), w)"
  shows "process_event e path st =
     Some (Inr \<lparr>os = w, stdout = stdout st1 @ [Could_not_rename (name path') msg]\<rparr>)"
  using assms
  by (simp add: process_event_def shutil_move_def print_def time_sleep_def Let_def)

text \<open>
  The statement above for \<open>photo.jpg\<close> where every move is refused: the file is still
  in the download directory afterwards.
\<close>

theorem process_event_move_fails_witness:
  "exists (state_with {''/Users/u/Downloads/photo.jpg''}) photo_path \<and>
   process_event demo_env photo_path (state_with {''/Users/u/Downloads/photo.jpg''}) =
     Some (Inr \<lparr>os = \<lparr>clock = 2, files = {''/Users/u/Downloads/photo.jpg''}\<rparr>,
                stdout = [Detected ''photo.jpg'',
                          Could_not_rename ''photo.jpg'' ''Permission denied'']\<rparr>)"
proof -
  let ?st = "state_with {''/Users/u/Downloads/photo.jpg''}"
  let ?st1 = "print (Detected (name photo_path)) ?st"
  have a: "exists ?st photo_path"
    by (simp add: exists_def str_photo state_with_def)
  have b: "wait_for_download_complete demo_env photo_path 60 ?st1 = Some (photo_path, ?st1)"
    by (simp add: wait_for_download_complete_def suffix_photo)
  have c: "get_safari_url demo_env (time_sleep demo_env WAIT_TIME ?st1)
      = Inr ''https://example.com/invoice?id=42''"
    by (simp add: get_safari_url_def demo_env_def)
  have d: "move demo_env (str photo_path)
      (str (truediv (DEST_DIR demo_env)
         (sanitize_filename ''https://example.com/invoice?id=42'' @ suffix photo_path)))
      (os (time_sleep demo_env WAIT_TIME ?st1))
      = (Some (Exception ''Permission denied''), \<lparr>clock = 2, files = {''/Users/u/Downloads/photo.jpg''}\<rparr>)"
    by (simp add: demo_env_def time_sleep_def print_def state_with_def WAIT_TIME_def)
  from process_event_move_fails [OF a b c d] a show ?thesis
    by (simp add: print_def state_with_def Path_photo name_def)
qed

end
